theory Spec2Isabelle
  imports Complex_Main "HOL-Library.Sublist"
begin

section \<open>MixTape: the YouTube matching service\<close>

text \<open>
  A shallow embedding of the class \<open>YouTubeService\<close> (the service module that imports
  \<open>./supabase\<close>): the key pool, the two cache tiers, the match scorers, the ISO-8601
  duration parser, the resolver \<open>searchTrack\<close> and the batch pipeline \<open>searchTracks\<close>.

  Conventions of the model.
  \<^item> JavaScript strings are \<open>string\<close>; \<open>toLowerCase\<close> maps the ASCII letters A-Z and
    leaves every other character as it is.
  \<^item> Durations in milliseconds are \<open>int\<close>; a score is a \<open>rat\<close>, so the arithmetic of
    the scorer is exact (the source computes in IEEE doubles).
  \<^item> \<open>null\<close> and \<open>undefined\<close> are \<open>None\<close>.
  \<^item> An exception is a value \<open>Inl e\<close>; every \<open>try/catch\<close> of the source is a case split.
  \<^item> The network and the database client are a \<open>world\<close>: functions from the moment of
    a request (the number of effects so far) and the request to the response.
  \<^item> Every effect (callback, timer, database request, HTTP request) is appended to the
    \<open>trace\<close> of the service state.
\<close>

subsection \<open>Strings\<close>

definition toLowerCase_char :: "char \<Rightarrow> char" where
  "toLowerCase_char c =
     (case map_of (zip ''ABCDEFGHIJKLMNOPQRSTUVWXYZ'' ''abcdefghijklmnopqrstuvwxyz'') c of
        None \<Rightarrow> c
      | Some l \<Rightarrow> l)"

definition toLowerCase :: "string \<Rightarrow> string" where
  "toLowerCase s = map toLowerCase_char s"

text \<open>\<open>title.includes(term)\<close>: \<open>term\<close> occurs in \<open>title\<close> as a contiguous substring.\<close>

fun str_includes :: "string \<Rightarrow> string \<Rightarrow> bool" where
  "str_includes [] t = (t = [])"
| "str_includes (c # cs) t = (prefix t (c # cs) \<or> str_includes cs t)"

subsection \<open>parseISO8601Duration\<close>

text \<open>
  The source matches \<open>/PT(?:(\d+)H)?(?:(\d+)M)?(?:(\d+)S)?/\<close> with \<open>String.match\<close>. The
  expression has no anchors, so the match starts at the leftmost occurrence of \<open>PT\<close>;
  each optional group is taken when a non-empty run of digits is followed by its
  letter, and skipped otherwise; what follows the last group is ignored.
\<close>

definition isDigit :: "char \<Rightarrow> bool" where
  "isDigit c = (c \<in> set ''0123456789'')"

definition digitValue :: "char \<Rightarrow> int" where
  "digitValue c = int (of_char c) - 48"

fun findPT :: "string \<Rightarrow> string option" where
  "findPT [] = None"
| "findPT (c # cs) = (if prefix ''PT'' (c # cs) then Some (drop 2 (c # cs)) else findPT cs)"

definition matchGroup :: "char \<Rightarrow> string \<Rightarrow> string option \<times> string" where
  "matchGroup letter s =
     (case dropWhile isDigit s of
        [] \<Rightarrow> (None, s)
      | c # rest \<Rightarrow>
          if takeWhile isDigit s \<noteq> [] \<and> c = letter then (Some (takeWhile isDigit s), rest)
          else (None, s))"

definition regexMatch :: "string \<Rightarrow> (string option \<times> string option \<times> string option) option" where
  "regexMatch duration =
     (case findPT duration of
        None \<Rightarrow> None
      | Some r0 \<Rightarrow>
          (let (h, r1) = matchGroup CHR ''H'' r0;
               (m, r2) = matchGroup CHR ''M'' r1;
               (s, r3) = matchGroup CHR ''S'' r2
           in Some (h, m, s)))"

text \<open>
  \<open>parseInt(match[i] || 0, 10)\<close>: an absent group is 0, a group is a run of digits, read
  here as the integer it writes (the source's doubles are exact below \<open>2^53\<close>).
\<close>

definition parseInt10 :: "string option \<Rightarrow> int" where
  "parseInt10 g =
     (case g of
        None \<Rightarrow> 0
      | Some ds \<Rightarrow> foldl (\<lambda>acc c. acc * 10 + digitValue c) 0 ds)"

definition parseISO8601Duration :: "string \<Rightarrow> int" where
  "parseISO8601Duration duration =
     (case regexMatch duration of
        None \<Rightarrow> 0
      | Some (h, m, s) \<Rightarrow>
          (let hours = parseInt10 h;
               minutes = parseInt10 m;
               seconds = parseInt10 s
           in (hours * 3600 + minutes * 60 + seconds) * 1000))"

text \<open>
  The form \<open>PT[nH][nM][nS]\<close> of the specification, read as a grammar for the whole
  string: a string of this form is the text of up to three groups after \<open>PT\<close>.
\<close>

definition groupText :: "string option \<Rightarrow> char \<Rightarrow> string" where
  "groupText g letter = (case g of None \<Rightarrow> [] | Some ds \<Rightarrow> ds @ [letter])"

definition digitsOk :: "string option \<Rightarrow> bool" where
  "digitsOk g = (case g of None \<Rightarrow> True | Some ds \<Rightarrow> ds \<noteq> [] \<and> list_all isDigit ds)"

definition isoSubsetForm :: "string \<Rightarrow> bool" where
  "isoSubsetForm s =
     (prefix ''PT'' s \<and>
      (let (h, r1) = matchGroup CHR ''H'' (drop 2 s);
           (m, r2) = matchGroup CHR ''M'' r1;
           (sec, r3) = matchGroup CHR ''S'' r2
       in r3 = []))"

subsection \<open>The match scorers\<close>

record yt_video =
  yt_id :: string
  contentDetails_duration :: string
  snippet_title :: string
  thumbnails_medium_url :: "string option"
  thumbnails_default_url :: "string option"
  snippet_channelTitle :: string

record invidious_video =
  inv_videoId :: string
  inv_title :: string
  lengthSeconds :: int
  author :: string

record match_result =
  videoId :: string
  title :: string
  duration :: int
  thumbnailUrl :: "string option"
  channelTitle :: string

definition DURATION_TOLERANCE_MS :: int where
  "DURATION_TOLERANCE_MS = 15000"

text \<open>\<open>a || b\<close> on two optional strings: the empty string is falsy.\<close>

definition js_or :: "string option \<Rightarrow> string option \<Rightarrow> string option" where
  "js_or a b = (case a of None \<Rightarrow> b | Some u \<Rightarrow> if u = [] then b else Some u)"

text \<open>
  The score of one video in \<open>findBestMatch\<close>, as it stands when the loop compares it
  with \<open>bestScore\<close>; \<open>None\<close> when the loop skips the video with \<open>continue\<close>.
\<close>

definition baseScore :: "int \<Rightarrow> rat" where
  "baseScore durationDiff = 100 - (of_int durationDiff / of_int DURATION_TOLERANCE_MS) * 50"

definition searchTerms :: "string \<Rightarrow> string \<Rightarrow> string list" where
  "searchTerms trackName artistName =
     [toLowerCase trackName, toLowerCase artistName, ''official'', ''audio'', ''music video'']"

definition badTerms :: "string list" where
  "badTerms = [''cover'', ''remix'', ''live'', ''karaoke'', ''instrumental'', ''lyrics'']"

definition videoScore :: "yt_video \<Rightarrow> int \<Rightarrow> string \<Rightarrow> string \<Rightarrow> rat option" where
  "videoScore video targetDurationMs trackName artistName =
     (let videoDurationMs = parseISO8601Duration (contentDetails_duration video);
          durationDiff = \<bar>videoDurationMs - targetDurationMs\<bar>
      in if durationDiff > DURATION_TOLERANCE_MS then None
         else
           (let score0 = baseScore durationDiff;
                title = toLowerCase (snippet_title video);
                score1 = foldl (\<lambda>score term. if str_includes title term then score + 10 else score)
                           score0 (searchTerms trackName artistName);
                score2 = foldl (\<lambda>score term. if str_includes title term then score - 20 else score)
                           score1 badTerms
            in Some score2))"

definition youtubeMatch :: "yt_video \<Rightarrow> match_result" where
  "youtubeMatch video =
     \<lparr> videoId = yt_id video,
       title = snippet_title video,
       duration = parseISO8601Duration (contentDetails_duration video),
       thumbnailUrl = js_or (thumbnails_medium_url video) (thumbnails_default_url video),
       channelTitle = snippet_channelTitle video \<rparr>"

fun findBestMatch_loop ::
  "yt_video list \<Rightarrow> int \<Rightarrow> string \<Rightarrow> string \<Rightarrow> match_result option \<Rightarrow> rat \<Rightarrow> match_result option"
where
  "findBestMatch_loop [] targetDurationMs trackName artistName bestMatch bestScore = bestMatch"
| "findBestMatch_loop (video # videos) targetDurationMs trackName artistName bestMatch bestScore =
     (case videoScore video targetDurationMs trackName artistName of
        None \<Rightarrow> findBestMatch_loop videos targetDurationMs trackName artistName bestMatch bestScore
      | Some score \<Rightarrow>
          if score > bestScore
          then findBestMatch_loop videos targetDurationMs trackName artistName
                 (Some (youtubeMatch video)) score
          else findBestMatch_loop videos targetDurationMs trackName artistName bestMatch bestScore)"

definition findBestMatch :: "yt_video list \<Rightarrow> int \<Rightarrow> string \<Rightarrow> string \<Rightarrow> match_result option" where
  "findBestMatch videos targetDurationMs trackName artistName =
     findBestMatch_loop videos targetDurationMs trackName artistName None 0"

text \<open>
  \<open>findBestMatchInvidious\<close> is written out on its own, as in the source: the mirror's
  items carry \<open>lengthSeconds\<close>, \<open>videoId\<close>, \<open>title\<close> and \<open>author\<close>.
\<close>

definition invidiousScore :: "invidious_video \<Rightarrow> int \<Rightarrow> string \<Rightarrow> string \<Rightarrow> rat option" where
  "invidiousScore video targetDurationMs trackName artistName =
     (let videoDurationMs = lengthSeconds video * 1000;
          durationDiff = \<bar>videoDurationMs - targetDurationMs\<bar>
      in if durationDiff > 15000 then None
         else
           (let score0 = 100 - (of_int durationDiff / 15000) * 50;
                title = toLowerCase (inv_title video);
                score1 = foldl (\<lambda>score term. if str_includes title term then score + 10 else score)
                           score0
                           [toLowerCase trackName, toLowerCase artistName,
                            ''official'', ''audio'', ''music video''];
                score2 = foldl (\<lambda>score term. if str_includes title term then score - 20 else score)
                           score1
                           [''cover'', ''remix'', ''live'', ''karaoke'', ''instrumental'', ''lyrics'']
            in Some score2))"

definition invidiousMatch :: "invidious_video \<Rightarrow> match_result" where
  "invidiousMatch video =
     \<lparr> videoId = inv_videoId video,
       title = inv_title video,
       duration = lengthSeconds video * 1000,
       thumbnailUrl = Some (''https://i.ytimg.com/vi/'' @ inv_videoId video @ ''/mqdefault.jpg''),
       channelTitle = author video \<rparr>"

fun findBestMatchInvidious_loop ::
  "invidious_video list \<Rightarrow> int \<Rightarrow> string \<Rightarrow> string \<Rightarrow> match_result option \<Rightarrow> rat
     \<Rightarrow> match_result option"
where
  "findBestMatchInvidious_loop [] targetDurationMs trackName artistName bestMatch bestScore =
     bestMatch"
| "findBestMatchInvidious_loop (video # videos) targetDurationMs trackName artistName
     bestMatch bestScore =
     (case invidiousScore video targetDurationMs trackName artistName of
        None \<Rightarrow>
          findBestMatchInvidious_loop videos targetDurationMs trackName artistName
            bestMatch bestScore
      | Some score \<Rightarrow>
          if score > bestScore
          then findBestMatchInvidious_loop videos targetDurationMs trackName artistName
                 (Some (invidiousMatch video)) score
          else findBestMatchInvidious_loop videos targetDurationMs trackName artistName
                 bestMatch bestScore)"

definition findBestMatchInvidious ::
  "invidious_video list \<Rightarrow> int \<Rightarrow> string \<Rightarrow> string \<Rightarrow> match_result option"
where
  "findBestMatchInvidious videos targetDurationMs trackName artistName =
     findBestMatchInvidious_loop videos targetDurationMs trackName artistName None 0"

subsection \<open>The world outside the service\<close>

text \<open>
  A row of the table \<open>youtube_cache\<close>, with the columns \<open>saveToDatabaseCache\<close> writes.
\<close>

record cache_row =
  track_name :: string
  artist_name :: string
  col_duration_ms :: int
  video_id :: string
  video_title :: string
  video_duration :: int
  thumbnail_url :: "string option"
  channel_title :: string

text \<open>
  The response to the search request: the request throws (the network fails, or the body
  is not what the code reads); the response is not \<open>ok\<close>, with its status and, when the
  body parses, \<open>error.errors[0].reason\<close>; or it is \<open>ok\<close>, with the video ids of its items
  (\<open>[]\<close> when \<open>items\<close> is absent or empty). The response to the details request is alike.
\<close>

datatype search_response =
    SearchThrows
  | SearchNotOk nat "string option"
  | SearchOk "string list"

datatype videos_response =
    VideosThrows
  | VideosNotOk nat
  | VideosOk "yt_video list"

record world =
  youtube_search :: "nat \<Rightarrow> string \<Rightarrow> string \<Rightarrow> search_response"
  youtube_videos :: "nat \<Rightarrow> string \<Rightarrow> string list \<Rightarrow> videos_response"
  db_select_fails :: "nat \<Rightarrow> bool"
  db_insert_fails :: "nat \<Rightarrow> bool"

datatype event =
    OnProgress nat nat
  | Sleep nat
  | SearchTrackCall string string int
  | DbSelect string string
  | DbInsert cache_row
  | FetchSearch string string
  | FetchVideos string "string list"

datatype yt_error = QuotaExceeded | OtherError

text \<open>
  The filter \<open>ilike\<close> of the database client is the operator ILIKE of PostgreSQL: LIKE on
  the lower-cased pattern and value, where \<open>%\<close> (and \<open>*\<close>, its alias in the client's
  requests) stands for any text, \<open>_\<close> for any character, and a backslash quotes the
  character after it.
\<close>

fun like_match :: "string \<Rightarrow> string \<Rightarrow> bool" where
  "like_match [] t = (t = [])"
| "like_match (p # ps) t =
     (if p = CHR ''%'' \<or> p = CHR ''*''
      then like_match ps t \<or> (case t of [] \<Rightarrow> False | c # cs \<Rightarrow> like_match (p # ps) cs)
      else if p = CHR ''_''
      then (case t of [] \<Rightarrow> False | c # cs \<Rightarrow> like_match ps cs)
      else if p = CHR 0x5C
      then (case ps of
              [] \<Rightarrow> False
            | q # qs \<Rightarrow> (case t of [] \<Rightarrow> False | c # cs \<Rightarrow> c = q \<and> like_match qs cs))
      else (case t of [] \<Rightarrow> False | c # cs \<Rightarrow> c = p \<and> like_match ps cs))"

definition ilike :: "string \<Rightarrow> string \<Rightarrow> bool" where
  "ilike column_value pattern = like_match (toLowerCase pattern) (toLowerCase column_value)"

subsection \<open>The service: key pool and caches\<close>

record service =
  cache :: "string \<rightharpoonup> match_result"
  currentKeyIndex :: nat
  apiKeys :: "string list"
  youtube_cache :: "cache_row list"
  trace :: "event list"

definition emit :: "event \<Rightarrow> service \<Rightarrow> service" where
  "emit e s = s\<lparr> trace := trace s @ [e] \<rparr>"

definition loadApiKeys :: "(string \<rightharpoonup> string) \<Rightarrow> string list" where
  "loadApiKeys env =
     (let keys =
            concat (map (\<lambda>slot. case env slot of
                                  None \<Rightarrow> []
                                | Some key \<Rightarrow> if key = [] then [] else [key])
                      [''REACT_APP_YOUTUBE_API_KEY_1'', ''REACT_APP_YOUTUBE_API_KEY_2'',
                       ''REACT_APP_YOUTUBE_API_KEY_3'', ''REACT_APP_YOUTUBE_API_KEY_4'',
                       ''REACT_APP_YOUTUBE_API_KEY_5'', ''REACT_APP_YOUTUBE_API_KEY_6'',
                       ''REACT_APP_YOUTUBE_API_KEY_7'', ''REACT_APP_YOUTUBE_API_KEY_8'',
                       ''REACT_APP_YOUTUBE_API_KEY_9'', ''REACT_APP_YOUTUBE_API_KEY_10''])
      in if length keys = 0
         then (case env ''REACT_APP_YOUTUBE_API_KEY'' of
                 None \<Rightarrow> keys
               | Some key \<Rightarrow> if key = [] then keys else keys @ [key])
         else keys)"

definition newService :: "(string \<rightharpoonup> string) \<Rightarrow> cache_row list \<Rightarrow> service" where
  "newService env table =
     \<lparr> cache = Map.empty,
       currentKeyIndex = 0,
       apiKeys = loadApiKeys env,
       youtube_cache = table,
       trace = [] \<rparr>"

text \<open>Reading an array past its end gives \<open>undefined\<close>.\<close>

definition getCurrentApiKey :: "service \<Rightarrow> string option" where
  "getCurrentApiKey s =
     (if length (apiKeys s) = 0 then None
      else if currentKeyIndex s < length (apiKeys s) then Some (apiKeys s ! currentKeyIndex s)
      else None)"

definition rotateApiKey :: "service \<Rightarrow> bool \<times> service" where
  "rotateApiKey s =
     (if length (apiKeys s) \<le> 1 then (False, s)
      else (True, s\<lparr> currentKeyIndex := (currentKeyIndex s + 1) mod length (apiKeys s) \<rparr>))"

text \<open>A run of the two operations of the key pool, for the invariant of the cursor.\<close>

datatype pool_op = Current | Rotate

fun pool_run :: "pool_op list \<Rightarrow> service \<Rightarrow> service" where
  "pool_run [] s = s"
| "pool_run (Current # ops) s = pool_run ops s"
| "pool_run (Rotate # ops) s = pool_run ops (snd (rotateApiKey s))"

text \<open>
  \<open>checkDatabaseCache\<close> asks the table for the rows whose \<open>artist_name\<close> and
  \<open>track_name\<close> match the two names under \<open>ilike\<close>, at most one of them
  (\<open>limit(1).single()\<close>: the first, or an error when there is none); an error of the
  request or an exception gives \<open>null\<close>. \<open>saveToDatabaseCache\<close> inserts a row and
  ignores every failure, a refused duplicate among them.
\<close>

definition rowMatch :: "cache_row \<Rightarrow> match_result" where
  "rowMatch data =
     \<lparr> videoId = video_id data,
       title = video_title data,
       duration = video_duration data,
       thumbnailUrl = thumbnail_url data,
       channelTitle = channel_title data \<rparr>"

definition checkDatabaseCache ::
  "world \<Rightarrow> string \<Rightarrow> string \<Rightarrow> service \<Rightarrow> match_result option \<times> service"
where
  "checkDatabaseCache w trackName artistName s =
     (let s1 = emit (DbSelect artistName trackName) s
      in if db_select_fails w (length (trace s)) then (None, s1)
         else
           (case find (\<lambda>r. ilike (artist_name r) artistName \<and> ilike (track_name r) trackName)
                   (youtube_cache s) of
              None \<Rightarrow> (None, s1)
            | Some data \<Rightarrow> (Some (rowMatch data), s1)))"

definition saveToDatabaseCache ::
  "world \<Rightarrow> string \<Rightarrow> string \<Rightarrow> int \<Rightarrow> match_result \<Rightarrow> service \<Rightarrow> service"
where
  "saveToDatabaseCache w trackName artistName durationMs result s =
     (let r = \<lparr> track_name = trackName,
                 artist_name = artistName,
                 col_duration_ms = durationMs,
                 video_id = videoId result,
                 video_title = title result,
                 video_duration = duration result,
                 thumbnail_url = thumbnailUrl result,
                 channel_title = channelTitle result \<rparr>;
          s1 = emit (DbInsert r) s
      in if db_insert_fails w (length (trace s)) then s1
         else s1\<lparr> youtube_cache := youtube_cache s1 @ [r] \<rparr>)"

subsection \<open>The resolver\<close>

text \<open>
  \<open>searchWithYouTube\<close>: the search request, then the details request for the ids found,
  then \<open>findBestMatch\<close>. It throws on a response that is not \<open>ok\<close> (with \<open>quotaExceeded\<close>
  set when that is the reason the body gives) and on any failure of a request.
\<close>

definition searchWithYouTube ::
  "world \<Rightarrow> string \<Rightarrow> string \<Rightarrow> int \<Rightarrow> service \<Rightarrow> (yt_error + match_result option) \<times> service"
where
  "searchWithYouTube w trackName artistName durationMs s =
     (let apiKey = (case getCurrentApiKey s of None \<Rightarrow> ''null'' | Some k \<Rightarrow> k);
          query = artistName @ '' - '' @ trackName @ '' official audio'';
          s1 = emit (FetchSearch apiKey query) s
      in case youtube_search w (length (trace s)) apiKey query of
           SearchThrows \<Rightarrow> (Inl OtherError, s1)
         | SearchNotOk status reason \<Rightarrow>
             if reason = Some ''quotaExceeded'' then (Inl QuotaExceeded, s1)
             else (Inl OtherError, s1)
         | SearchOk videoIds \<Rightarrow>
             if length videoIds = 0 then (Inr None, s1)
             else
               (let s2 = emit (FetchVideos apiKey videoIds) s1
                in case youtube_videos w (length (trace s1)) apiKey videoIds of
                     VideosThrows \<Rightarrow> (Inl OtherError, s2)
                   | VideosNotOk status \<Rightarrow> (Inl OtherError, s2)
                   | VideosOk items \<Rightarrow>
                       (Inr (findBestMatch items durationMs trackName artistName), s2)))"

text \<open>
  The body of the \<open>while\<close> loop of \<open>searchTrack\<close>: one attempt. \<open>Inl s'\<close> is \<open>continue\<close>
  (the key was rotated and \<open>attempts\<close> is to be incremented), \<open>Inr (r, s')\<close> is
  \<open>return r\<close>.
\<close>

definition searchTrack_attempt ::
  "world \<Rightarrow> string \<Rightarrow> string \<Rightarrow> int \<Rightarrow> string \<Rightarrow> service
     \<Rightarrow> service + (match_result option \<times> service)"
where
  "searchTrack_attempt w trackName artistName durationMs cacheKey s =
     (case searchWithYouTube w trackName artistName durationMs s of
        (Inr (Some result), s1) \<Rightarrow>
          (let s2 = s1\<lparr> cache := (cache s1)(cacheKey \<mapsto> result) \<rparr>;
               s3 = saveToDatabaseCache w trackName artistName durationMs result s2
           in Inr (Some result, s3))
      | (Inr None, s1) \<Rightarrow> Inr (None, s1)
      | (Inl error, s1) \<Rightarrow>
          if error = QuotaExceeded
          then (case rotateApiKey s1 of
                  (True, s2) \<Rightarrow> Inl s2
                | (False, s2) \<Rightarrow> Inr (None, s2))
          else Inr (None, s1))"

function searchTrack_loop ::
  "world \<Rightarrow> string \<Rightarrow> string \<Rightarrow> int \<Rightarrow> string \<Rightarrow> nat \<Rightarrow> nat \<Rightarrow> service
     \<Rightarrow> match_result option \<times> service"
where
  "searchTrack_loop w trackName artistName durationMs cacheKey attempts maxAttempts s =
     (if attempts < maxAttempts
      then (case searchTrack_attempt w trackName artistName durationMs cacheKey s of
              Inl s' \<Rightarrow>
                searchTrack_loop w trackName artistName durationMs cacheKey
                  (attempts + 1) maxAttempts s'
            | Inr r \<Rightarrow> r)
      else (None, s))"
  by pat_completeness auto
termination
  by (relation "measure (\<lambda>(w, trackName, artistName, durationMs, cacheKey, attempts,
                           maxAttempts, s). maxAttempts - attempts)") auto

text \<open>The key of the in-memory cache: the lower-cased text \<open>artist - track\<close>.\<close>

definition cacheKey :: "string \<Rightarrow> string \<Rightarrow> string" where
  "cacheKey artistName trackName = toLowerCase (artistName @ '' - '' @ trackName)"

definition searchTrack ::
  "world \<Rightarrow> string \<Rightarrow> string \<Rightarrow> int \<Rightarrow> service \<Rightarrow> match_result option \<times> service"
where
  "searchTrack w trackName artistName durationMs s =
     (let key = cacheKey artistName trackName;
          s0 = emit (SearchTrackCall trackName artistName durationMs) s
      in case cache s0 key of
           Some cached \<Rightarrow> (Some cached, s0)
         | None \<Rightarrow>
             (case checkDatabaseCache w trackName artistName s0 of
                (Some dbCached, s1) \<Rightarrow>
                  (Some dbCached, s1\<lparr> cache := (cache s1)(key \<mapsto> dbCached) \<rparr>)
              | (None, s1) \<Rightarrow>
                  (case getCurrentApiKey s1 of
                     None \<Rightarrow> (None, s1)
                   | Some apiKey \<Rightarrow>
                       if apiKey = [] then (None, s1)
                       else searchTrack_loop w trackName artistName durationMs key
                              0 (length (apiKeys s1)) s1)))"

subsection \<open>The batch pipeline\<close>

record track =
  name :: string
  artist :: string
  duration_ms :: int

record resolved_track = track +
  youtubeId :: "string option"
  youtubeTitle :: "string option"
  youtubeThumbnail :: "string option"
  matched :: bool

definition annotate :: "track \<Rightarrow> match_result option \<Rightarrow> resolved_track" where
  "annotate t m =
     \<lparr> name = name t,
       artist = artist t,
       duration_ms = duration_ms t,
       youtubeId = js_or (map_option videoId m) None,
       youtubeTitle = js_or (map_option title m) None,
       youtubeThumbnail = js_or (Option.bind m thumbnailUrl) None,
       matched = (m \<noteq> None) \<rparr>"

text \<open>
  One turn of the \<open>for\<close> loop of \<open>searchTracks\<close>, at index \<open>i\<close>; \<open>onProgress\<close> says whether
  the caller passed a callback.
\<close>

definition searchTracks_body ::
  "world \<Rightarrow> track list \<Rightarrow> bool \<Rightarrow> nat \<Rightarrow> service \<Rightarrow> resolved_track \<times> service"
where
  "searchTracks_body w tracks onProgress i s =
     (let t = tracks ! i;
          s1 = (if onProgress then emit (OnProgress (i + 1) (length tracks)) s else s);
          (m, s2) = searchTrack w (name t) (artist t) (duration_ms t) s1;
          s3 = (if i + 1 < length tracks then emit (Sleep 100) s2 else s2)
      in (annotate t m, s3))"

function searchTracks_loop ::
  "world \<Rightarrow> track list \<Rightarrow> bool \<Rightarrow> nat \<Rightarrow> resolved_track list \<Rightarrow> service
     \<Rightarrow> resolved_track list \<times> service"
where
  "searchTracks_loop w tracks onProgress i results s =
     (if i < length tracks
      then (case searchTracks_body w tracks onProgress i s of
              (r, s') \<Rightarrow> searchTracks_loop w tracks onProgress (i + 1) (results @ [r]) s')
      else (results, s))"
  by pat_completeness auto
termination
  by (relation "measure (\<lambda>(w, tracks, onProgress, i, results, s). length tracks - i)") auto

definition searchTracks ::
  "world \<Rightarrow> track list \<Rightarrow> bool \<Rightarrow> service \<Rightarrow> resolved_track list \<times> service"
where
  "searchTracks w tracks onProgress s = searchTracks_loop w tracks onProgress 0 [] s"

text \<open>
  The state in which the loop of \<open>searchTracks\<close> reaches index \<open>i\<close>, and what
  \<open>searchTrack\<close> returns for the track at that index.
\<close>

fun stateAt :: "world \<Rightarrow> track list \<Rightarrow> bool \<Rightarrow> service \<Rightarrow> nat \<Rightarrow> service" where
  "stateAt w tracks onProgress s 0 = s"
| "stateAt w tracks onProgress s (Suc i) =
     snd (searchTracks_body w tracks onProgress i (stateAt w tracks onProgress s i))"

definition resolutionAt ::
  "world \<Rightarrow> track list \<Rightarrow> bool \<Rightarrow> service \<Rightarrow> nat \<Rightarrow> match_result option"
where
  "resolutionAt w tracks onProgress s i =
     (let t = tracks ! i;
          s0 = stateAt w tracks onProgress s i;
          s1 = (if onProgress then emit (OnProgress (i + 1) (length tracks)) s0 else s0)
      in fst (searchTrack w (name t) (artist t) (duration_ms t) s1))"

text \<open>
  The events of the batch loop itself, and the sequence the loop is to produce from
  index \<open>i\<close> on when a callback is passed.
\<close>

fun batchEvent :: "event \<Rightarrow> bool" where
  "batchEvent (OnProgress c n) = True"
| "batchEvent (Sleep ms) = True"
| "batchEvent (SearchTrackCall tn an d) = True"
| "batchEvent (DbSelect an tn) = False"
| "batchEvent (DbInsert r) = False"
| "batchEvent (FetchSearch k q) = False"
| "batchEvent (FetchVideos k ids) = False"

text \<open>A search attempt is a search request to the provider.\<close>

fun searchAttempt :: "event \<Rightarrow> bool" where
  "searchAttempt (FetchSearch k q) = True"
| "searchAttempt (OnProgress c n) = False"
| "searchAttempt (Sleep ms) = False"
| "searchAttempt (SearchTrackCall tn an d) = False"
| "searchAttempt (DbSelect an tn) = False"
| "searchAttempt (DbInsert r) = False"
| "searchAttempt (FetchVideos k ids) = False"

definition batchTurn :: "track list \<Rightarrow> nat \<Rightarrow> event list" where
  "batchTurn tracks i =
     [OnProgress (i + 1) (length tracks),
      SearchTrackCall (name (tracks ! i)) (artist (tracks ! i)) (duration_ms (tracks ! i))]
     @ (if i + 1 < length tracks then [Sleep 100] else [])"

subsection \<open>Notions used in the statements\<close>

text \<open>
  The same candidate in the two provider shapes: the same id and title, and the
  duration of the primary shape equal to \<open>lengthSeconds * 1000\<close> of the mirror's.
\<close>

definition sameCandidate :: "yt_video \<Rightarrow> invidious_video \<Rightarrow> bool" where
  "sameCandidate y v =
     (yt_id y = inv_videoId v \<and> snippet_title y = inv_title v \<and>
      parseISO8601Duration (contentDetails_duration y) = lengthSeconds v * 1000)"

definition sameSelection :: "match_result option \<Rightarrow> match_result option \<Rightarrow> bool" where
  "sameSelection a b =
     (map_option videoId a = map_option videoId b \<and>
      map_option title a = map_option title b \<and>
      map_option duration a = map_option duration b)"

text \<open>The events a run adds to the trace, from the state before and the state after.\<close>

definition newEvents :: "service \<Rightarrow> service \<Rightarrow> event list" where
  "newEvents s s' = drop (length (trace s)) (trace s')"

text \<open>Every search request, whenever and with whatever key, is refused for quota.\<close>

definition alwaysQuotaExceeded :: "world \<Rightarrow> bool" where
  "alwaysQuotaExceeded w =
     (\<forall>t k q. \<exists>status. youtube_search w t k q = SearchNotOk status (Some ''quotaExceeded''))"

text \<open>The query is in neither cache tier.\<close>

definition cacheMiss :: "service \<Rightarrow> string \<Rightarrow> string \<Rightarrow> bool" where
  "cacheMiss s trackName artistName =
     (cache s (cacheKey artistName trackName) = None \<and>
      find (\<lambda>r. ilike (artist_name r) artistName \<and> ilike (track_name r) trackName)
        (youtube_cache s) = None)"

text \<open>The pool as \<open>loadApiKeys\<close> leaves it (no empty key), with the cursor inside it.\<close>

definition poolOk :: "service \<Rightarrow> bool" where
  "poolOk s = (list_all (\<lambda>k. k \<noteq> []) (apiKeys s) \<and> currentKeyIndex s < length (apiKeys s))"

subsection \<open>Sample data\<close>

definition sampleVideo :: "string \<Rightarrow> string \<Rightarrow> string \<Rightarrow> yt_video" where
  "sampleVideo i d t =
     \<lparr> yt_id = i, contentDetails_duration = d, snippet_title = t,
       thumbnails_medium_url = None, thumbnails_default_url = Some ''thumb'',
       snippet_channelTitle = ''channel'' \<rparr>"

definition sampleMirrorVideo :: "string \<Rightarrow> int \<Rightarrow> string \<Rightarrow> invidious_video" where
  "sampleMirrorVideo i secs t =
     \<lparr> inv_videoId = i, inv_title = t, lengthSeconds = secs, author = ''channel'' \<rparr>"

definition videoA :: yt_video where
  "videoA = sampleVideo ''a'' ''PT3M20S'' ''Artist - Track (Official Audio)''"


definition videoB :: yt_video where
  "videoB = sampleVideo ''b'' ''PT3M25S'' ''Track (Live)''"

definition videoEdge :: yt_video where
  "videoEdge = sampleVideo ''e'' ''PT3M35S'' ''Untitled''"


definition mirrorA :: invidious_video where
  "mirrorA = sampleMirrorVideo ''a'' 200 ''Artist - Track (Official Audio)''"

definition mirrorB :: invidious_video where
  "mirrorB = sampleMirrorVideo ''b'' 205 ''Track (Live)''"

definition sampleEnv :: "string \<rightharpoonup> string" where
  "sampleEnv = [''REACT_APP_YOUTUBE_API_KEY_1'' \<mapsto> ''k1'', ''REACT_APP_YOUTUBE_API_KEY_3'' \<mapsto> ''k3'']"

definition legacyEnv :: "string \<rightharpoonup> string" where
  "legacyEnv = [''REACT_APP_YOUTUBE_API_KEY'' \<mapsto> ''k0'']"

definition sampleRow :: cache_row where
  "sampleRow =
     \<lparr> track_name = ''Track'', artist_name = ''Artist'', col_duration_ms = 200000,
       video_id = ''a'', video_title = ''Artist - Track (Official Audio)'',
       video_duration = 200000, thumbnail_url = Some ''thumb'', channel_title = ''channel'' \<rparr>"

text \<open>
  A provider that finds \<open>videoA\<close> for every query but one, for which it finds nothing;
  and a provider whose every answer is that the quota is exceeded.
\<close>

definition sampleWorld :: world where
  "sampleWorld =
     \<lparr> youtube_search = (\<lambda>t k q. if q = ''X - Nope official audio'' then SearchOk []
                                  else SearchOk [''a'']),
       youtube_videos = (\<lambda>t k ids. VideosOk [videoA]),
       db_select_fails = (\<lambda>t. False),
       db_insert_fails = (\<lambda>t. False) \<rparr>"

definition quotaWorld :: world where
  "quotaWorld =
     \<lparr> youtube_search = (\<lambda>t k q. SearchNotOk 403 (Some ''quotaExceeded'')),
       youtube_videos = (\<lambda>t k ids. VideosThrows),
       db_select_fails = (\<lambda>t. False),
       db_insert_fails = (\<lambda>t. False) \<rparr>"

definition sampleTracks :: "track list" where
  "sampleTracks =
     [\<lparr> name = ''Track'', artist = ''Artist'', duration_ms = 200000 \<rparr>,
      \<lparr> name = ''Nope'', artist = ''X'', duration_ms = 200000 \<rparr>,
      \<lparr> name = ''TRACK'', artist = ''artist'', duration_ms = 200000 \<rparr>]"

text \<open>
  A service whose table holds \<open>sampleRow\<close>, and the same service with the row's match in
  the in-memory cache.
\<close>

definition storedService :: service where
  "storedService = newService sampleEnv [sampleRow]"

definition warmService :: service where
  "warmService = storedService\<lparr> cache := [cacheKey ''Artist'' ''Track'' \<mapsto> rowMatch sampleRow] \<rparr>"

section \<open>Properties\<close>

subsection \<open>The duration parser\<close>

lemma letters_not_digits:
  "\<not> isDigit CHR ''H''" "\<not> isDigit CHR ''M''" "\<not> isDigit CHR ''S''"
  by (simp_all add: isDigit_def)

lemma matchGroup_Nil: "matchGroup letter [] = (None, [])"
  by (simp add: matchGroup_def)

lemma matchGroup_present:
  "ds \<noteq> [] \<Longrightarrow> list_all isDigit ds \<Longrightarrow> \<not> isDigit letter \<Longrightarrow>
   matchGroup letter (ds @ letter # rest) = (Some ds, rest)"
  by (simp add: matchGroup_def list_all_iff)

lemma matchGroup_other:
  "list_all isDigit ds \<Longrightarrow> \<not> isDigit c \<Longrightarrow> c \<noteq> letter \<Longrightarrow>
   matchGroup letter (ds @ c # rest) = (None, ds @ c # rest)"
  by (simp add: matchGroup_def list_all_iff)

lemma matchGroup_groupText:
  "digitsOk g \<Longrightarrow> \<not> isDigit letter \<Longrightarrow>
   matchGroup letter (groupText g letter @ rest) =
     (if g = None then matchGroup letter rest else (g, rest))"
  by (cases g) (simp_all add: groupText_def digitsOk_def matchGroup_present)

lemma matchGroup_skip:
  "digitsOk g \<Longrightarrow> \<not> isDigit c \<Longrightarrow> c \<noteq> letter \<Longrightarrow>
   matchGroup letter (groupText g c @ rest) =
     (if g = None then matchGroup letter rest else (None, groupText g c @ rest))"
  by (cases g) (simp_all add: groupText_def digitsOk_def matchGroup_other)



text \<open>The three groups of a string of the form \<open>PT[nH][nM][nS]\<close> are read back as written.\<close>

lemma groups_read_back:
  assumes "digitsOk h" "digitsOk m" "digitsOk sec"
  shows "matchGroup CHR ''H'' (groupText h CHR ''H'' @ groupText m CHR ''M'' @ groupText sec CHR ''S'')
           = (h, groupText m CHR ''M'' @ groupText sec CHR ''S'')"
    and "matchGroup CHR ''M'' (groupText m CHR ''M'' @ groupText sec CHR ''S'')
           = (m, groupText sec CHR ''S'')"
    and "matchGroup CHR ''S'' (groupText sec CHR ''S'') = (sec, [])"
proof -
  show S: "matchGroup CHR ''S'' (groupText sec CHR ''S'') = (sec, [])"
    using matchGroup_groupText [OF assms(3) letters_not_digits(3), of "[]"]
    by (simp add: matchGroup_Nil)
  have MS: "matchGroup CHR ''M'' (groupText sec CHR ''S'') = (None, groupText sec CHR ''S'')"
    using matchGroup_skip [OF assms(3) letters_not_digits(3), of "CHR ''M''" "[]"]
    by (simp add: matchGroup_Nil) (simp add: groupText_def)
  have HS: "matchGroup CHR ''H'' (groupText sec CHR ''S'') = (None, groupText sec CHR ''S'')"
    using matchGroup_skip [OF assms(3) letters_not_digits(3), of "CHR ''H''" "[]"]
    by (simp add: matchGroup_Nil) (simp add: groupText_def)
  show M: "matchGroup CHR ''M'' (groupText m CHR ''M'' @ groupText sec CHR ''S'')
           = (m, groupText sec CHR ''S'')"
    using matchGroup_groupText [OF assms(2) letters_not_digits(2), of "groupText sec CHR ''S''"] MS
    by (auto simp: groupText_def)
  have HM: "matchGroup CHR ''H'' (groupText m CHR ''M'' @ groupText sec CHR ''S'')
           = (None, groupText m CHR ''M'' @ groupText sec CHR ''S'')"
    using matchGroup_skip [OF assms(2) letters_not_digits(2), of "CHR ''H''"
        "groupText sec CHR ''S''"] HS
    by (auto simp: groupText_def)
  show "matchGroup CHR ''H'' (groupText h CHR ''H'' @ groupText m CHR ''M'' @ groupText sec CHR ''S'')
           = (h, groupText m CHR ''M'' @ groupText sec CHR ''S'')"
    using matchGroup_groupText [OF assms(1) letters_not_digits(1),
        of "groupText m CHR ''M'' @ groupText sec CHR ''S''"] HM
    by (auto simp: groupText_def)
qed


text \<open>Every string built from three groups has the form \<open>PT[nH][nM][nS]\<close>.\<close>

lemma isoSubsetForm_groups:
  assumes "digitsOk h" "digitsOk m" "digitsOk sec"
  shows "isoSubsetForm
           (''PT'' @ groupText h CHR ''H'' @ groupText m CHR ''M'' @ groupText sec CHR ''S'')"
proof -
  have "drop 2 (''PT'' @ groupText h CHR ''H'' @ groupText m CHR ''M'' @ groupText sec CHR ''S'')
        = groupText h CHR ''H'' @ groupText m CHR ''M'' @ groupText sec CHR ''S''"
    by simp
  then show ?thesis
    unfolding isoSubsetForm_def by (simp add: groups_read_back [OF assms])
qed

text \<open>
  Conversely, what \<open>matchGroup\<close> takes is a group as written, so \<open>isoSubsetForm\<close> holds
  of exactly the strings of the form \<open>PT[nH][nM][nS]\<close>.
\<close>

lemma matchGroup_shape:
  assumes "matchGroup letter s = (g, r)"
  shows "digitsOk g \<and> s = groupText g letter @ r"
proof (cases "dropWhile isDigit s")
  case Nil
  with assms show ?thesis
    by (auto simp: matchGroup_def digitsOk_def groupText_def)
next
  case (Cons c rest)
  have s: "s = takeWhile isDigit s @ c # rest"
    using Cons takeWhile_dropWhile_id [of isDigit s] by simp
  have d: "list_all isDigit (takeWhile isDigit s)"
    by (simp add: list_all_iff) (meson set_takeWhileD)
  show ?thesis
    using assms Cons s d
    by (auto simp: matchGroup_def digitsOk_def groupText_def split: if_splits)
qed

lemma isoSubsetForm_iff:
  "isoSubsetForm s \<longleftrightarrow>
     (\<exists>h m sec. digitsOk h \<and> digitsOk m \<and> digitsOk sec \<and>
        s = ''PT'' @ groupText h CHR ''H'' @ groupText m CHR ''M'' @ groupText sec CHR ''S'')"
proof
  assume f: "isoSubsetForm s"
  obtain h r1 where h: "matchGroup CHR ''H'' (drop 2 s) = (h, r1)"
    by (cases "matchGroup CHR ''H'' (drop 2 s)")
  obtain m r2 where m: "matchGroup CHR ''M'' r1 = (m, r2)"
    by (cases "matchGroup CHR ''M'' r1")
  obtain sec r3 where sec: "matchGroup CHR ''S'' r2 = (sec, r3)"
    by (cases "matchGroup CHR ''S'' r2")
  from f h m sec have p: "prefix ''PT'' s" and e: "r3 = []"
    by (simp_all add: isoSubsetForm_def)
  from p have s: "s = ''PT'' @ drop 2 s"
    by (auto simp: prefix_def)
  from matchGroup_shape [OF h] matchGroup_shape [OF m] matchGroup_shape [OF sec] e
  have "digitsOk h \<and> digitsOk m \<and> digitsOk sec \<and>
        drop 2 s = groupText h CHR ''H'' @ groupText m CHR ''M'' @ groupText sec CHR ''S''"
    by simp
  with s show "\<exists>h m sec. digitsOk h \<and> digitsOk m \<and> digitsOk sec \<and>
        s = ''PT'' @ groupText h CHR ''H'' @ groupText m CHR ''M'' @ groupText sec CHR ''S''"
    by metis
next
  assume "\<exists>h m sec. digitsOk h \<and> digitsOk m \<and> digitsOk sec \<and>
        s = ''PT'' @ groupText h CHR ''H'' @ groupText m CHR ''M'' @ groupText sec CHR ''S''"
  then show "isoSubsetForm s"
    using isoSubsetForm_groups by blast
qed




subsection \<open>The match scorer\<close>




lemma baseScore_boundary: "baseScore 15000 = 50"
  by (simp add: baseScore_def DURATION_TOLERANCE_MS_def)

text \<open>
  C5. A video whose duration differs from the target by more than 15000 ms gets no score
  and leaves the loop of \<open>findBestMatch\<close> as it found it; at a difference of exactly
  15000 ms the base score is 50 and the video is scored from there by its title; every
  video within the tolerance is scored.
\<close>

theorem duration_tolerance_boundary:
  "(15000 < \<bar>parseISO8601Duration (contentDetails_duration v) - t\<bar> \<longrightarrow>
      videoScore v t tn an = None \<and>
      findBestMatch_loop (v # vs) t tn an bm bs = findBestMatch_loop vs t tn an bm bs)
   \<and> (\<bar>parseISO8601Duration (contentDetails_duration v) - t\<bar> = 15000 \<longrightarrow>
        baseScore \<bar>parseISO8601Duration (contentDetails_duration v) - t\<bar> = 50 \<and>
        videoScore v t tn an =
          Some (foldl (\<lambda>score term. if str_includes (toLowerCase (snippet_title v)) term
                                    then score - 20 else score)
                  (foldl (\<lambda>score term. if str_includes (toLowerCase (snippet_title v)) term
                                       then score + 10 else score)
                     50 (searchTerms tn an))
                  badTerms))
   \<and> (\<bar>parseISO8601Duration (contentDetails_duration v) - t\<bar> \<le> 15000 \<longrightarrow>
        videoScore v t tn an \<noteq> None)"
  by (simp add: videoScore_def DURATION_TOLERANCE_MS_def Let_def baseScore_boundary)

theorem duration_tolerance_boundary_witness:
  "\<bar>parseISO8601Duration (contentDetails_duration videoEdge) - 200000\<bar> = 15000
   \<and> videoScore videoEdge 200000 ''Track'' ''Artist'' = Some 50
   \<and> \<bar>parseISO8601Duration (contentDetails_duration videoEdge) - 199999\<bar> = 15001
   \<and> videoScore videoEdge 199999 ''Track'' ''Artist'' = None"
proof -
  have d: "parseISO8601Duration (contentDetails_duration videoEdge) = 215000"
    by code_simp
  have t: "foldl (\<lambda>score term. if str_includes (toLowerCase (snippet_title videoEdge)) term
                                    then score - 20 else score)
                  (foldl (\<lambda>score term. if str_includes (toLowerCase (snippet_title videoEdge)) term
                                       then score + 10 else score)
                     50 (searchTerms ''Track'' ''Artist''))
                  badTerms = (50 :: rat)"
    by code_simp
  show ?thesis
    using duration_tolerance_boundary [of videoEdge 200000 "''Track''" "''Artist''"]
      duration_tolerance_boundary [of videoEdge 199999 "''Track''" "''Artist''"] d t
    by simp
qed

subsection \<open>The fallback scorer\<close>

lemma scores_agree:
  assumes "snippet_title y = inv_title v"
    and "parseISO8601Duration (contentDetails_duration y) = lengthSeconds v * 1000"
  shows "videoScore y t tn an = invidiousScore v t tn an"
  using assms
  by (simp add: videoScore_def invidiousScore_def baseScore_def DURATION_TOLERANCE_MS_def
      searchTerms_def badTerms_def Let_def)

lemma loops_agree:
  "list_all2 sameCandidate ys vs \<Longrightarrow> sameSelection bm bm' \<Longrightarrow>
   sameSelection (findBestMatch_loop ys t tn an bm bs)
     (findBestMatchInvidious_loop vs t tn an bm' bs)"
proof (induction ys vs arbitrary: bm bm' bs rule: list_all2_induct)
  case Nil
  then show ?case by simp
next
  case (Cons y ys v vs)
  have sc: "videoScore y t tn an = invidiousScore v t tn an"
    using Cons.hyps(1) by (simp add: sameCandidate_def scores_agree)
  have m: "sameSelection (Some (youtubeMatch y)) (Some (invidiousMatch v))"
    using Cons.hyps(1)
    by (simp add: sameCandidate_def sameSelection_def youtubeMatch_def invidiousMatch_def)
  show ?case
    using Cons.IH [OF Cons.prems] Cons.IH [OF m] sc
    by (simp split: option.splits)
qed

text \<open>
  C8. On the same candidates in the two provider shapes, the two scorers compute the same
  scores, position by position, and select the same candidate: the same video id, title
  and duration, or none in both.
\<close>

theorem fallback_scorer_agrees:
  "list_all2 sameCandidate ys vs \<Longrightarrow>
   map (\<lambda>y. videoScore y t tn an) ys = map (\<lambda>v. invidiousScore v t tn an) vs \<and>
   sameSelection (findBestMatch ys t tn an) (findBestMatchInvidious vs t tn an)"
proof -
  assume h: "list_all2 sameCandidate ys vs"
  have "map (\<lambda>y. videoScore y t tn an) ys = map (\<lambda>v. invidiousScore v t tn an) vs"
    using h by (induction rule: list_all2_induct) (simp_all add: sameCandidate_def scores_agree)
  moreover have "sameSelection (findBestMatch ys t tn an) (findBestMatchInvidious vs t tn an)"
    unfolding findBestMatch_def findBestMatchInvidious_def
    by (rule loops_agree [OF h]) (simp add: sameSelection_def)
  ultimately show ?thesis ..
qed

theorem fallback_scorer_agrees_witness:
  "list_all2 sameCandidate [videoB, videoA] [mirrorB, mirrorA]
   \<and> map (\<lambda>v. invidiousScore v 200000 ''Track'' ''Artist'') [mirrorB, mirrorA]
       = [Some (220 / 3), Some 140]
   \<and> map (\<lambda>y. videoScore y 200000 ''Track'' ''Artist'') [videoB, videoA]
       = [Some (220 / 3), Some 140]
   \<and> map_option videoId (findBestMatchInvidious [mirrorB, mirrorA] 200000 ''Track'' ''Artist'')
       = Some ''a''
   \<and> map_option videoId (findBestMatch [videoB, videoA] 200000 ''Track'' ''Artist'') = Some ''a''"
proof -
  have h: "list_all2 sameCandidate [videoB, videoA] [mirrorB, mirrorA]"
    by code_simp
  have i: "map (\<lambda>v. invidiousScore v 200000 ''Track'' ''Artist'') [mirrorB, mirrorA]
           = [Some (220 / 3), Some 140]"
    "map_option videoId (findBestMatchInvidious [mirrorB, mirrorA] 200000 ''Track'' ''Artist'')
     = Some ''a''"
    by code_simp+
  show ?thesis
    using fallback_scorer_agrees [OF h, of 200000 "''Track''" "''Artist''"] h i
    by (simp add: sameSelection_def)
qed

subsection \<open>The key pool\<close>

lemma rotateApiKey_cursor:
  "currentKeyIndex (snd (rotateApiKey s)) < length (apiKeys (snd (rotateApiKey s)))"
  if "currentKeyIndex s < length (apiKeys s)"
proof (cases "length (apiKeys s) \<le> 1")
  case True
  then show ?thesis using that by (simp add: rotateApiKey_def)
next
  case False
  then have "0 < length (apiKeys s)" by (cases "apiKeys s") simp_all
  then have "(currentKeyIndex s + 1) mod length (apiKeys s) < length (apiKeys s)"
    by (rule mod_less_divisor)
  with False show ?thesis by (simp add: rotateApiKey_def)
qed

lemma pool_run_cursor:
  "currentKeyIndex s < length (apiKeys s) \<Longrightarrow>
   currentKeyIndex (pool_run ops s) < length (apiKeys (pool_run ops s))"
proof (induction ops arbitrary: s)
  case Nil
  then show ?case by simp
next
  case (Cons a ops)
  show ?case
  proof (cases a)
    case Current
    with Cons show ?thesis by simp
  next
    case Rotate
    with Cons.IH [OF rotateApiKey_cursor [OF Cons.prems]] show ?thesis by simp
  qed
qed

text \<open>
  C6. The cursor stays below the size of a non-empty pool under every run of the two
  operations, from any state where it is and from the state the constructor builds;
  \<open>rotateApiKey\<close> moves the cursor one place on, modulo the size, and returns true when
  the pool has more than one key, and returns false and changes nothing otherwise;
  \<open>getCurrentApiKey\<close> is none on an empty pool and the key at the cursor otherwise.
\<close>

theorem key_pool_cursor_invariant:
  "(0 < length (apiKeys s) \<and> currentKeyIndex s < length (apiKeys s) \<longrightarrow>
      currentKeyIndex (pool_run ops s) < length (apiKeys (pool_run ops s)))
   \<and> (0 < length (loadApiKeys env) \<longrightarrow>
        currentKeyIndex (pool_run ops (newService env table))
          < length (apiKeys (pool_run ops (newService env table))))
   \<and> (1 < length (apiKeys s) \<longrightarrow>
        rotateApiKey s =
          (True, s\<lparr> currentKeyIndex := (currentKeyIndex s + 1) mod length (apiKeys s) \<rparr>))
   \<and> (length (apiKeys s) \<le> 1 \<longrightarrow> rotateApiKey s = (False, s))
   \<and> (length (apiKeys s) = 0 \<longrightarrow> getCurrentApiKey s = None)
   \<and> (currentKeyIndex s < length (apiKeys s) \<longrightarrow>
        getCurrentApiKey s = Some (apiKeys s ! currentKeyIndex s))"
proof -
  have a: "currentKeyIndex (pool_run ops s) < length (apiKeys (pool_run ops s))"
    if "0 < length (apiKeys s) \<and> currentKeyIndex s < length (apiKeys s)"
    using that pool_run_cursor by blast
  have "currentKeyIndex (newService env table) < length (apiKeys (newService env table))"
    if "0 < length (loadApiKeys env)"
    using that by (simp add: newService_def)
  then have b: "currentKeyIndex (pool_run ops (newService env table))
          < length (apiKeys (pool_run ops (newService env table)))"
    if "0 < length (loadApiKeys env)"
    using that pool_run_cursor by blast
  have c: "rotateApiKey s =
          (True, s\<lparr> currentKeyIndex := (currentKeyIndex s + 1) mod length (apiKeys s) \<rparr>)"
    if "1 < length (apiKeys s)"
    using that by (simp add: rotateApiKey_def)
  have d: "rotateApiKey s = (False, s)" if "length (apiKeys s) \<le> 1"
    using that by (simp add: rotateApiKey_def)
  have e: "getCurrentApiKey s = None" if "length (apiKeys s) = 0"
    using that by (simp add: getCurrentApiKey_def)
  have f: "getCurrentApiKey s = Some (apiKeys s ! currentKeyIndex s)"
    if "currentKeyIndex s < length (apiKeys s)"
    using that by (auto simp add: getCurrentApiKey_def)
  from a b c d e f show ?thesis by blast
qed

theorem key_pool_cursor_invariant_witness:
  "0 < length (loadApiKeys sampleEnv)
   \<and> apiKeys (newService sampleEnv []) = [''k1'', ''k3'']
   \<and> currentKeyIndex (pool_run [Rotate, Current, Rotate, Rotate] (newService sampleEnv [])) = 1
   \<and> fst (rotateApiKey (newService sampleEnv [])) = True
   \<and> currentKeyIndex (snd (rotateApiKey (newService sampleEnv []))) = 1
   \<and> apiKeys (newService legacyEnv []) = [''k0'']
   \<and> rotateApiKey (newService legacyEnv []) = (False, newService legacyEnv [])
   \<and> getCurrentApiKey (newService sampleEnv []) = Some ''k1''"
proof -
  have k: "loadApiKeys sampleEnv = [''k1'', ''k3'']" "loadApiKeys legacyEnv = [''k0'']"
    by (simp_all add: loadApiKeys_def sampleEnv_def legacyEnv_def)
  have r: "currentKeyIndex (pool_run [Rotate, Current, Rotate, Rotate] (newService sampleEnv []))
           = 1"
    by (simp add: newService_def k rotateApiKey_def)
  show ?thesis
    using key_pool_cursor_invariant
        [of "newService sampleEnv []" "[Rotate, Current, Rotate, Rotate]" sampleEnv "[]"]
      key_pool_cursor_invariant [of "newService legacyEnv []" "[]" legacyEnv "[]"] k r
    by (simp add: newService_def)
qed

subsection \<open>The cache key and the two cache tiers\<close>








subsection \<open>The resolver: what a resolution leaves in the cache\<close>

text \<open>The two loops are unfolded one turn at a time, where a proof needs it.\<close>

declare searchTrack_loop.simps [simp del] searchTracks_loop.simps [simp del]

lemma emit_fields [simp]:
  "trace (emit e s) = trace s @ [e]" "cache (emit e s) = cache s"
  "apiKeys (emit e s) = apiKeys s" "currentKeyIndex (emit e s) = currentKeyIndex s"
  "youtube_cache (emit e s) = youtube_cache s"
  by (simp_all add: emit_def)

lemma saveToDatabaseCache_fields [simp]:
  "cache (saveToDatabaseCache w t a d r s) = cache s"
  "apiKeys (saveToDatabaseCache w t a d r s) = apiKeys s"
  "currentKeyIndex (saveToDatabaseCache w t a d r s) = currentKeyIndex s"
  by (simp_all add: saveToDatabaseCache_def Let_def)

lemma searchTrack_attempt_cached:
  "searchTrack_attempt w t a d ck s = Inr (Some m, s') \<Longrightarrow> cache s' ck = Some m"
  by (auto simp: searchTrack_attempt_def Let_def rotateApiKey_def
      split: prod.splits sum.splits option.splits if_splits bool.splits)

lemma searchTrack_loop_cached:
  "searchTrack_loop w t a d ck att mx s = (Some m, s') \<Longrightarrow> cache s' ck = Some m"
proof (induction w t a d ck att mx s rule: searchTrack_loop.induct)
  case (1 w t a d ck att mx s)
  show ?case
  proof (cases "att < mx")
    case False
    with "1.prems" show ?thesis by (simp add: searchTrack_loop.simps)
  next
    case True
    show ?thesis
    proof (cases "searchTrack_attempt w t a d ck s")
      case (Inl s1)
      with True "1.prems" have "searchTrack_loop w t a d ck (att + 1) mx s1 = (Some m, s')"
        by (simp add: searchTrack_loop.simps [of w t a d ck att])
      with "1.IH" [OF True Inl] show ?thesis .
    next
      case (Inr r)
      with True "1.prems" have "searchTrack_attempt w t a d ck s = Inr (Some m, s')"
        by (simp add: searchTrack_loop.simps [of w t a d ck att])
      then show ?thesis by (rule searchTrack_attempt_cached)
    qed
  qed
qed

lemma searchTrack_cached:
  assumes "fst (searchTrack w t a d s) = Some m"
  shows "cache (snd (searchTrack w t a d s)) (cacheKey a t) = Some m"
proof (cases "cache s (cacheKey a t)")
  case (Some c)
  with assms show ?thesis by (simp add: searchTrack_def Let_def)
next
  case None
  show ?thesis
  proof (cases "fst (checkDatabaseCache w t a (emit (SearchTrackCall t a d) s))")
    case (Some c)
    with None assms show ?thesis
      by (auto simp: searchTrack_def Let_def split: prod.splits option.splits)
  next
    case n: None
    obtain r s' where l: "searchTrack w t a d s = (r, s')" by (cases "searchTrack w t a d s")
    with assms have r: "r = Some m" by simp
    from None n l r have
      "searchTrack_loop w t a d (cacheKey a t) 0
         (length (apiKeys (snd (checkDatabaseCache w t a (emit (SearchTrackCall t a d) s)))))
         (snd (checkDatabaseCache w t a (emit (SearchTrackCall t a d) s))) = (Some m, s')"
      by (auto simp: searchTrack_def Let_def split: prod.splits option.splits if_splits)
    then have "cache s' (cacheKey a t) = Some m" by (rule searchTrack_loop_cached)
    with l show ?thesis by simp
  qed
qed

text \<open>
  C10. The key of the in-memory cache is not injective: artist \<open>A - B\<close> with track \<open>C\<close> and
  artist \<open>A\<close> with track \<open>B - C\<close> are different queries with the same key, and once
  \<open>searchTrack\<close> has resolved the first to a match, it answers the second with that
  match, whatever the provider would say and whatever the durations are.
\<close>

theorem cache_key_not_injective:
  "(''A - B'', ''C'') \<noteq> (''A'', ''B - C'')
   \<and> cacheKey ''A - B'' ''C'' = cacheKey ''A'' ''B - C''
   \<and> (fst (searchTrack w ''C'' ''A - B'' d s) = Some m \<longrightarrow>
        fst (searchTrack w' ''B - C'' ''A'' d' (snd (searchTrack w ''C'' ''A - B'' d s))) = Some m)"
proof -
  have k: "cacheKey ''A - B'' ''C'' = cacheKey ''A'' ''B - C''"
    by (simp add: cacheKey_def)
  have "fst (searchTrack w' ''B - C'' ''A'' d' (snd (searchTrack w ''C'' ''A - B'' d s))) = Some m"
    if "fst (searchTrack w ''C'' ''A - B'' d s) = Some m"
    using searchTrack_cached [OF that] unfolding k
    by (simp add: searchTrack_def Let_def)
  with k show ?thesis by simp
qed

theorem cache_key_not_injective_witness:
  "fst (searchTrack sampleWorld ''C'' ''A - B'' 200000 (newService sampleEnv []))
     = Some (youtubeMatch videoA)
   \<and> fst (searchTrack quotaWorld ''B - C'' ''A'' 180000
            (snd (searchTrack sampleWorld ''C'' ''A - B'' 200000 (newService sampleEnv []))))
     = Some (youtubeMatch videoA)"
proof -
  have a: "fst (searchTrack sampleWorld ''C'' ''A - B'' 200000 (newService sampleEnv []))
     = Some (youtubeMatch videoA)"
    by code_simp
  show ?thesis
    using cache_key_not_injective [of sampleWorld 200000 "newService sampleEnv []"
        "youtubeMatch videoA" quotaWorld 180000] a
    by simp
qed


subsection \<open>The resolver: rotation when every key is refused\<close>

lemma newEvents_append: "trace s' = trace s @ evs \<Longrightarrow> newEvents s s' = evs"
  by (simp add: newEvents_def)

lemma getCurrentApiKey_in_pool:
  "currentKeyIndex s < length (apiKeys s) \<Longrightarrow>
   getCurrentApiKey s = Some (apiKeys s ! currentKeyIndex s)"
  by (auto simp: getCurrentApiKey_def)

lemma searchWithYouTube_quota:
  assumes "alwaysQuotaExceeded w" and "currentKeyIndex s < length (apiKeys s)"
  shows "searchWithYouTube w t a d s =
           (Inl QuotaExceeded,
            emit (FetchSearch (apiKeys s ! currentKeyIndex s) (a @ '' - '' @ t @ '' official audio'')) s)"
proof -
  obtain st where "youtube_search w (length (trace s)) (apiKeys s ! currentKeyIndex s)
      (a @ '' - '' @ t @ '' official audio'') = SearchNotOk st (Some ''quotaExceeded'')"
    using assms(1) unfolding alwaysQuotaExceeded_def by blast
  then show ?thesis
    using assms(2) by (simp add: searchWithYouTube_def getCurrentApiKey_in_pool Let_def)
qed

lemma searchTrack_attempt_quota_many:
  assumes "alwaysQuotaExceeded w" and "currentKeyIndex s < length (apiKeys s)"
    and "1 < length (apiKeys s)"
  shows "searchTrack_attempt w t a d ck s =
           Inl (s\<lparr> trace := trace s @ [FetchSearch (apiKeys s ! currentKeyIndex s)
                                         (a @ '' - '' @ t @ '' official audio'')],
                   currentKeyIndex := (currentKeyIndex s + 1) mod length (apiKeys s) \<rparr>)"
  using assms(3)
  by (simp add: searchTrack_attempt_def searchWithYouTube_quota [OF assms(1,2)]
      rotateApiKey_def emit_def)

lemma searchTrack_attempt_quota_one:
  assumes "alwaysQuotaExceeded w" and "currentKeyIndex s < length (apiKeys s)"
    and "length (apiKeys s) = 1"
  shows "searchTrack_attempt w t a d ck s =
           Inr (None, emit (FetchSearch (apiKeys s ! 0) (a @ '' - '' @ t @ '' official audio'')) s)"
  using assms(2,3)
  by (simp add: searchTrack_attempt_def searchWithYouTube_quota [OF assms(1,2)]
      rotateApiKey_def)

lemma searchTrack_loop_quota:
  assumes q: "alwaysQuotaExceeded w"
  shows "1 < length (apiKeys s) \<Longrightarrow> currentKeyIndex s < length (apiKeys s) \<Longrightarrow>
         att + n = length (apiKeys s) \<Longrightarrow>
         searchTrack_loop w t a d ck att (length (apiKeys s)) s =
           (None,
            s\<lparr> trace := trace s @
                   map (\<lambda>k. FetchSearch
                              (apiKeys s ! ((currentKeyIndex s + k) mod length (apiKeys s)))
                              (a @ '' - '' @ t @ '' official audio'')) [0..<n],
               currentKeyIndex := (currentKeyIndex s + n) mod length (apiKeys s) \<rparr>)"
proof (induction n arbitrary: att s)
  case 0
  then show ?case by (simp add: searchTrack_loop.simps)
next
  case (Suc n)
  let ?N = "length (apiKeys s)"
  let ?q = "a @ '' - '' @ t @ '' official audio''"
  let ?s1 = "s\<lparr> trace := trace s @ [FetchSearch (apiKeys s ! currentKeyIndex s) ?q],
                 currentKeyIndex := (currentKeyIndex s + 1) mod ?N \<rparr>"
  have lt: "att < ?N" using Suc.prems(3) by simp
  have at: "searchTrack_attempt w t a d ck s = Inl ?s1"
    by (rule searchTrack_attempt_quota_many [OF q Suc.prems(2,1)])
  have step: "searchTrack_loop w t a d ck att ?N s = searchTrack_loop w t a d ck (att + 1) ?N ?s1"
    using lt at by (simp add: searchTrack_loop.simps [of w t a d ck att])
  have "0 < ?N" using Suc.prems(1) by (simp del: length_greater_0_conv)
  then have "(currentKeyIndex s + 1) mod ?N < ?N" by (rule mod_less_divisor)
  then have p: "1 < length (apiKeys ?s1)" "currentKeyIndex ?s1 < length (apiKeys ?s1)"
    "(att + 1) + n = length (apiKeys ?s1)"
    using Suc.prems by simp_all
  have m: "((currentKeyIndex s + 1) mod ?N + k) mod ?N = (currentKeyIndex s + Suc k) mod ?N" for k
    by (simp add: mod_add_left_eq)
  have l: "map (\<lambda>k. FetchSearch (apiKeys s ! ((currentKeyIndex s + k) mod ?N)) ?q) [0..<Suc n]
         = FetchSearch (apiKeys s ! currentKeyIndex s) ?q
           # map (\<lambda>k. FetchSearch (apiKeys s ! ((currentKeyIndex s + Suc k) mod ?N)) ?q) [0..<n]"
    using Suc.prems(2) by (simp add: map_upt_Suc del: upt_Suc)
  show ?case
    unfolding step using Suc.IH [OF p] l m by simp
qed


lemma checkDatabaseCache_miss:
  "find (\<lambda>r. ilike (artist_name r) a \<and> ilike (track_name r) t) (youtube_cache s) = None \<Longrightarrow>
   checkDatabaseCache w t a s = (None, emit (DbSelect a t) s)"
  by (simp add: checkDatabaseCache_def Let_def)

lemma searchTrack_quota_many:
  assumes q: "alwaysQuotaExceeded w" and n: "1 < length (apiKeys s)" and p: "poolOk s"
    and c: "cacheMiss s t a"
  shows "searchTrack w t a d s =
           (None,
            s\<lparr> trace := trace s @ [SearchTrackCall t a d, DbSelect a t] @
                   map (\<lambda>k. FetchSearch
                              (apiKeys s ! ((currentKeyIndex s + k) mod length (apiKeys s)))
                              (a @ '' - '' @ t @ '' official audio'')) [0..<length (apiKeys s)] \<rparr>)"
proof -
  let ?s1 = "emit (DbSelect a t) (emit (SearchTrackCall t a d) s)"
  have i: "currentKeyIndex s < length (apiKeys s)" using p by (simp add: poolOk_def)
  have ne: "apiKeys s ! currentKeyIndex s \<noteq> []"
    using p by (simp add: poolOk_def list_all_length)
  have db: "checkDatabaseCache w t a (emit (SearchTrackCall t a d) s) = (None, ?s1)"
    using c by (simp add: checkDatabaseCache_miss cacheMiss_def)
  have k: "getCurrentApiKey ?s1 = Some (apiKeys s ! currentKeyIndex s)"
    using i by (simp add: getCurrentApiKey_in_pool)
  have l: "searchTrack_loop w t a d (cacheKey a t) 0 (length (apiKeys ?s1)) ?s1 =
           (None,
            ?s1\<lparr> trace := trace ?s1 @
                   map (\<lambda>k. FetchSearch
                              (apiKeys ?s1 ! ((currentKeyIndex ?s1 + k) mod length (apiKeys ?s1)))
                              (a @ '' - '' @ t @ '' official audio'')) [0..<length (apiKeys ?s1)],
               currentKeyIndex := (currentKeyIndex ?s1 + length (apiKeys ?s1))
                                    mod length (apiKeys ?s1) \<rparr>)"
    by (rule searchTrack_loop_quota [OF q]) (use n i in simp_all)
  have "searchTrack w t a d s =
          searchTrack_loop w t a d (cacheKey a t) 0 (length (apiKeys ?s1)) ?s1"
    using c db k ne by (simp add: searchTrack_def Let_def cacheMiss_def)
  then show ?thesis
    unfolding l using i by (simp add: emit_def)
qed

lemma searchTrack_quota_one:
  assumes q: "alwaysQuotaExceeded w" and n: "length (apiKeys s) = 1" and p: "poolOk s"
    and c: "cacheMiss s t a"
  shows "searchTrack w t a d s =
           (None,
            s\<lparr> trace := trace s @ [SearchTrackCall t a d, DbSelect a t,
                   FetchSearch (apiKeys s ! 0) (a @ '' - '' @ t @ '' official audio'')] \<rparr>)"
proof -
  let ?s1 = "emit (DbSelect a t) (emit (SearchTrackCall t a d) s)"
  have i: "currentKeyIndex s = 0" using p n by (simp add: poolOk_def)
  have ne: "apiKeys s ! 0 \<noteq> []"
    using p n by (simp add: poolOk_def list_all_length)
  have db: "checkDatabaseCache w t a (emit (SearchTrackCall t a d) s) = (None, ?s1)"
    using c by (simp add: checkDatabaseCache_miss cacheMiss_def)
  have k: "getCurrentApiKey ?s1 = Some (apiKeys s ! 0)"
    using i n by (simp add: getCurrentApiKey_in_pool)
  have at: "searchTrack_attempt w t a d (cacheKey a t) ?s1 =
           Inr (None, emit (FetchSearch (apiKeys ?s1 ! 0) (a @ '' - '' @ t @ '' official audio'')) ?s1)"
    by (rule searchTrack_attempt_quota_one [OF q]) (use n i in simp_all)
  have l: "searchTrack_loop w t a d (cacheKey a t) 0 (length (apiKeys ?s1)) ?s1 =
           (None, emit (FetchSearch (apiKeys ?s1 ! 0) (a @ '' - '' @ t @ '' official audio'')) ?s1)"
    using n at by (simp add: searchTrack_loop.simps [of w t a d "cacheKey a t" 0])
  have "searchTrack w t a d s =
          searchTrack_loop w t a d (cacheKey a t) 0 (length (apiKeys ?s1)) ?s1"
    using c db k ne by (simp add: searchTrack_def Let_def cacheMiss_def)
  then show ?thesis
    unfolding l by (simp add: emit_def)
qed

lemma searchTrack_quota:
  assumes q: "alwaysQuotaExceeded w" and n: "0 < length (apiKeys s)" and p: "poolOk s"
    and c: "cacheMiss s t a"
  shows "searchTrack w t a d s =
           (None,
            s\<lparr> trace := trace s @ [SearchTrackCall t a d, DbSelect a t] @
                   map (\<lambda>k. FetchSearch
                              (apiKeys s ! ((currentKeyIndex s + k) mod length (apiKeys s)))
                              (a @ '' - '' @ t @ '' official audio'')) [0..<length (apiKeys s)] \<rparr>)"
proof (cases "length (apiKeys s) = 1")
  case True
  show ?thesis
    unfolding searchTrack_quota_one [OF q True p c] using True by simp
next
  case False
  with n have "1 < length (apiKeys s)" by (simp del: length_greater_0_conv)
  then show ?thesis by (rule searchTrack_quota_many [OF q _ p c])
qed

lemma rotation_positions_distinct:
  "distinct (map (\<lambda>k. (c + k) mod n) [0..<n])"
proof -
  have *: "x = y" if "x \<le> y" "y < n" "(c + x) mod n = (c + y) mod n" for x y
  proof -
    have "c + x \<le> c + y" using that(1) by simp
    then have "(c + y) mod n = (c + x) mod n \<longleftrightarrow> n dvd (c + y) - (c + x)"
      by (rule mod_eq_dvd_iff_nat)
    with that(3) have "n dvd (c + y) - (c + x)" by simp
    then have "n dvd y - x" by simp
    moreover have "y - x < n" using that(2) by simp
    ultimately have "y - x = 0" using nat_dvd_not_less by blast
    with that(1) show ?thesis by simp
  qed
  have "inj_on (\<lambda>k. (c + k) mod n) {0..<n}"
  proof (rule inj_onI)
    fix x y assume x: "x \<in> {0..<n}" and y: "y \<in> {0..<n}" and e: "(c + x) mod n = (c + y) mod n"
    show "x = y"
    proof (cases "x \<le> y")
      case True
      with y e show ?thesis using * [of x y] by simp
    next
      case False
      with x e show ?thesis using * [of y x] by simp
    qed
  qed
  then show ?thesis by (simp add: distinct_map)
qed

text \<open>
  C2. With a pool of \<open>N \<ge> 1\<close> keys, the cursor inside it, a query that is in neither cache
  tier and a provider that refuses every search request for quota, one call of
  \<open>searchTrack\<close> returns none after exactly \<open>N\<close> search requests, the k-th with the key
  at position \<open>(cursor + k) mod N\<close>, so every position of the pool is used once; with
  \<open>N = 1\<close> there is one request and \<open>rotateApiKey\<close> returns false.
\<close>

theorem rotation_exhaustion:
  assumes "alwaysQuotaExceeded w" and "0 < length (apiKeys s)" and "poolOk s"
    and "cacheMiss s tn an"
  shows "fst (searchTrack w tn an d s) = None
    \<and> newEvents s (snd (searchTrack w tn an d s)) =
        [SearchTrackCall tn an d, DbSelect an tn] @
        map (\<lambda>k. FetchSearch (apiKeys s ! ((currentKeyIndex s + k) mod length (apiKeys s)))
                   (an @ '' - '' @ tn @ '' official audio'')) [0..<length (apiKeys s)]
    \<and> length (filter searchAttempt (newEvents s (snd (searchTrack w tn an d s))))
        = length (apiKeys s)
    \<and> distinct (map (\<lambda>k. (currentKeyIndex s + k) mod length (apiKeys s)) [0..<length (apiKeys s)])
    \<and> (length (apiKeys s) = 1 \<longrightarrow>
         fst (rotateApiKey (snd (searchTrack w tn an d s))) = False \<and>
         filter searchAttempt (newEvents s (snd (searchTrack w tn an d s)))
           = [FetchSearch (apiKeys s ! 0) (an @ '' - '' @ tn @ '' official audio'')])"
proof -
  note r = searchTrack_quota [OF assms, of d]
  have ev: "newEvents s (snd (searchTrack w tn an d s)) =
        [SearchTrackCall tn an d, DbSelect an tn] @
        map (\<lambda>k. FetchSearch (apiKeys s ! ((currentKeyIndex s + k) mod length (apiKeys s)))
                   (an @ '' - '' @ tn @ '' official audio'')) [0..<length (apiKeys s)]"
    by (rule newEvents_append) (simp add: r)
  have f: "filter searchAttempt (map (\<lambda>k. FetchSearch (g k) q) ks) = map (\<lambda>k. FetchSearch (g k) q) ks"
    for g :: "nat \<Rightarrow> string" and q ks
    by (induction ks) simp_all
  have cnt: "length (filter searchAttempt (newEvents s (snd (searchTrack w tn an d s))))
        = length (apiKeys s)"
    unfolding ev by (simp add: f)
  have one: "fst (rotateApiKey (snd (searchTrack w tn an d s))) = False \<and>
         filter searchAttempt (newEvents s (snd (searchTrack w tn an d s)))
           = [FetchSearch (apiKeys s ! 0) (an @ '' - '' @ tn @ '' official audio'')]"
    if "length (apiKeys s) = 1"
    unfolding ev using that by (simp add: r rotateApiKey_def f)
  show ?thesis
    using r ev cnt one rotation_positions_distinct by simp
qed

theorem rotation_exhaustion_witness:
  "alwaysQuotaExceeded quotaWorld
   \<and> poolOk (newService sampleEnv []) \<and> cacheMiss (newService sampleEnv []) ''Track'' ''Artist''
   \<and> length (apiKeys (newService sampleEnv [])) = 2
   \<and> fst (searchTrack quotaWorld ''Track'' ''Artist'' 200000 (newService sampleEnv [])) = None
   \<and> newEvents (newService sampleEnv [])
        (snd (searchTrack quotaWorld ''Track'' ''Artist'' 200000 (newService sampleEnv [])))
      = [SearchTrackCall ''Track'' ''Artist'' 200000, DbSelect ''Artist'' ''Track'',
         FetchSearch ''k1'' ''Artist - Track official audio'',
         FetchSearch ''k3'' ''Artist - Track official audio'']
   \<and> poolOk (newService legacyEnv []) \<and> cacheMiss (newService legacyEnv []) ''Track'' ''Artist''
   \<and> length (apiKeys (newService legacyEnv [])) = 1
   \<and> fst (searchTrack quotaWorld ''Track'' ''Artist'' 200000 (newService legacyEnv [])) = None
   \<and> fst (rotateApiKey (snd (searchTrack quotaWorld ''Track'' ''Artist'' 200000
                                 (newService legacyEnv [])))) = False
   \<and> filter searchAttempt
        (newEvents (newService legacyEnv [])
           (snd (searchTrack quotaWorld ''Track'' ''Artist'' 200000 (newService legacyEnv []))))
      = [FetchSearch ''k0'' ''Artist - Track official audio'']"
proof -
  have q: "alwaysQuotaExceeded quotaWorld"
    by (simp add: alwaysQuotaExceeded_def quotaWorld_def)
  have k: "apiKeys (newService sampleEnv []) = [''k1'', ''k3'']"
    "apiKeys (newService legacyEnv []) = [''k0'']"
    by (simp_all add: newService_def loadApiKeys_def sampleEnv_def legacyEnv_def)
  have p: "poolOk (newService sampleEnv [])" "poolOk (newService legacyEnv [])"
    by (simp_all add: poolOk_def k) (simp_all add: newService_def)
  have c: "cacheMiss (newService sampleEnv []) ''Track'' ''Artist''"
    "cacheMiss (newService legacyEnv []) ''Track'' ''Artist''"
    by (simp_all add: cacheMiss_def newService_def)
  have n: "0 < length (apiKeys (newService sampleEnv []))"
    "0 < length (apiKeys (newService legacyEnv []))"
    by (simp_all add: k)
  have u: "[0..<2] = [0, Suc 0]"
    by (simp add: upt_conv_Cons)
  show ?thesis
    using rotation_exhaustion [OF q n(1) p(1) c(1), of 200000]
      rotation_exhaustion [OF q n(2) p(2) c(2), of 200000] q p c
    by (simp add: k u) (simp add: newService_def)
qed


subsection \<open>The batch pipeline: order and failures\<close>

lemma searchTracks_body_at:
  "searchTracks_body w tracks cb i (stateAt w tracks cb s i) =
     (annotate (tracks ! i) (resolutionAt w tracks cb s i), stateAt w tracks cb s (Suc i))"
  by (simp add: searchTracks_body_def resolutionAt_def Let_def split: prod.splits)

declare stateAt.simps(2) [simp del]

lemma searchTracks_loop_from:
  "i + n = length tracks \<Longrightarrow>
   searchTracks_loop w tracks cb i acc (stateAt w tracks cb s i) =
     (acc @ map (\<lambda>j. annotate (tracks ! j) (resolutionAt w tracks cb s j)) [i..<length tracks],
      stateAt w tracks cb s (length tracks))"
proof (induction n arbitrary: i acc)
  case 0
  then show ?case by (simp add: searchTracks_loop.simps)
next
  case (Suc n)
  then have lt: "i < length tracks" and nx: "Suc i + n = length tracks" by simp_all
  have "searchTracks_loop w tracks cb i acc (stateAt w tracks cb s i) =
        searchTracks_loop w tracks cb (i + 1)
          (acc @ [annotate (tracks ! i) (resolutionAt w tracks cb s i)])
          (stateAt w tracks cb s (Suc i))"
    using lt by (simp add: searchTracks_loop.simps [of w tracks cb i] searchTracks_body_at)
  then show ?case
    using Suc.IH [OF nx] lt by (simp add: upt_conv_Cons)
qed

lemma searchTracks_result:
  "searchTracks w tracks cb s =
     (map (\<lambda>j. annotate (tracks ! j) (resolutionAt w tracks cb s j)) [0..<length tracks],
      stateAt w tracks cb s (length tracks))"
  using searchTracks_loop_from [of 0 "length tracks" tracks w cb "[]" s]
  by (simp add: searchTracks_def)

lemma annotate_fields:
  "name (annotate t m) = name t" "artist (annotate t m) = artist t"
  "duration_ms (annotate t m) = duration_ms t"
  "matched (annotate t m) = (m \<noteq> None)"
  "youtubeId (annotate t None) = None"
  by (simp_all add: annotate_def js_or_def)

lemma searchTrack_attempt_catches:
  "fst (searchWithYouTube w tn an d s) = Inl e \<Longrightarrow>
   (case searchTrack_attempt w tn an d ck s of
      Inl s' \<Rightarrow> e = QuotaExceeded
    | Inr (r, s') \<Rightarrow> r = None)"
  by (auto simp: searchTrack_attempt_def rotateApiKey_def split: prod.splits sum.splits)

text \<open>
  C4. \<open>searchTracks\<close> returns a list as long as its input; the entry at each position is
  the track at that position annotated with what \<open>searchTrack\<close> returned for it, in the
  state the earlier tracks left; an entry whose resolution returned none has
  \<open>matched = false\<close> and no video id, an entry whose resolution returned a match has
  \<open>matched = true\<close>. The result of \<open>searchTracks\<close> is a list and never an error: every
  error the provider search throws is caught in \<open>searchTrack\<close>, where it ends the attempt
  with a retry (only for a quota error) or with the result none.
\<close>

theorem searchTracks_order_and_failures:
  "length (fst (searchTracks w tracks cb s)) = length tracks
   \<and> (\<forall>i<length tracks.
        fst (searchTracks w tracks cb s) ! i
          = annotate (tracks ! i) (resolutionAt w tracks cb s i)
        \<and> name (fst (searchTracks w tracks cb s) ! i) = name (tracks ! i)
        \<and> artist (fst (searchTracks w tracks cb s) ! i) = artist (tracks ! i)
        \<and> duration_ms (fst (searchTracks w tracks cb s) ! i) = duration_ms (tracks ! i)
        \<and> (resolutionAt w tracks cb s i = None \<longrightarrow>
             \<not> matched (fst (searchTracks w tracks cb s) ! i) \<and>
             youtubeId (fst (searchTracks w tracks cb s) ! i) = None)
        \<and> (resolutionAt w tracks cb s i \<noteq> None \<longrightarrow>
             matched (fst (searchTracks w tracks cb s) ! i)))
   \<and> (\<forall>e. fst (searchWithYouTube w' tn an d s') = Inl e \<longrightarrow>
        (case searchTrack_attempt w' tn an d ck s' of
           Inl s'' \<Rightarrow> e = QuotaExceeded
         | Inr (r, s'') \<Rightarrow> r = None))"
proof -
  have len: "length (fst (searchTracks w tracks cb s)) = length tracks"
    by (simp add: searchTracks_result)
  have at: "fst (searchTracks w tracks cb s) ! i
            = annotate (tracks ! i) (resolutionAt w tracks cb s i)"
    if "i < length tracks" for i
    using that by (simp add: searchTracks_result)
  have each: "\<forall>i<length tracks.
        fst (searchTracks w tracks cb s) ! i
          = annotate (tracks ! i) (resolutionAt w tracks cb s i)
        \<and> name (fst (searchTracks w tracks cb s) ! i) = name (tracks ! i)
        \<and> artist (fst (searchTracks w tracks cb s) ! i) = artist (tracks ! i)
        \<and> duration_ms (fst (searchTracks w tracks cb s) ! i) = duration_ms (tracks ! i)
        \<and> (resolutionAt w tracks cb s i = None \<longrightarrow>
             \<not> matched (fst (searchTracks w tracks cb s) ! i) \<and>
             youtubeId (fst (searchTracks w tracks cb s) ! i) = None)
        \<and> (resolutionAt w tracks cb s i \<noteq> None \<longrightarrow>
             matched (fst (searchTracks w tracks cb s) ! i))"
    by (simp add: at annotate_fields)
  have catches: "\<forall>e. fst (searchWithYouTube w' tn an d s') = Inl e \<longrightarrow>
        (case searchTrack_attempt w' tn an d ck s' of
           Inl s'' \<Rightarrow> e = QuotaExceeded
         | Inr (r, s'') \<Rightarrow> r = None)"
    by (intro allI impI) (rule searchTrack_attempt_catches)
  from len each catches show ?thesis by (intro conjI)
qed


theorem searchTracks_order_and_failures_witness:
  "length (fst (searchTracks sampleWorld sampleTracks True (newService sampleEnv []))) = 3
   \<and> resolutionAt sampleWorld sampleTracks True (newService sampleEnv []) 1 = None
   \<and> \<not> matched (fst (searchTracks sampleWorld sampleTracks True (newService sampleEnv [])) ! 1)
   \<and> youtubeId (fst (searchTracks sampleWorld sampleTracks True (newService sampleEnv [])) ! 1)
       = None
   \<and> map matched (fst (searchTracks sampleWorld sampleTracks True (newService sampleEnv [])))
       = [True, False, True]
   \<and> map name (fst (searchTracks sampleWorld sampleTracks True (newService sampleEnv [])))
       = [''Track'', ''Nope'', ''TRACK'']
   \<and> fst (searchWithYouTube quotaWorld ''Track'' ''Artist'' 200000 (newService legacyEnv []))
       = Inl QuotaExceeded
   \<and> (case searchTrack_attempt quotaWorld ''Track'' ''Artist'' 200000 ''artist - track''
              (newService legacyEnv []) of
         Inl s'' \<Rightarrow> True
       | Inr (r, s'') \<Rightarrow> r = None)"
proof -
  have l: "length sampleTracks = 3" "(1::nat) < 3"
    by (simp_all add: sampleTracks_def)
  have r: "resolutionAt sampleWorld sampleTracks True (newService sampleEnv []) 1 = None"
    by code_simp
  have m: "map matched (fst (searchTracks sampleWorld sampleTracks True (newService sampleEnv [])))
       = [True, False, True]"
    "map name (fst (searchTracks sampleWorld sampleTracks True (newService sampleEnv [])))
       = [''Track'', ''Nope'', ''TRACK'']"
    by code_simp+
  have e: "fst (searchWithYouTube quotaWorld ''Track'' ''Artist'' 200000 (newService legacyEnv []))
       = Inl QuotaExceeded"
    by code_simp
  note T = searchTracks_order_and_failures [of sampleWorld sampleTracks True
      "newService sampleEnv []" quotaWorld "''Track''" "''Artist''" 200000
      "newService legacyEnv []" "''artist - track''"]
  from T have len: "length (fst (searchTracks sampleWorld sampleTracks True (newService sampleEnv [])))
      = length sampleTracks"
    by (rule conjunct1)
  have i1: "1 < length sampleTracks" by (simp add: sampleTracks_def)
  note B = conjunct1 [OF conjunct2 [OF T], rule_format, OF i1]
  from B have "resolutionAt sampleWorld sampleTracks True (newService sampleEnv []) 1 = None \<longrightarrow>
      \<not> matched (fst (searchTracks sampleWorld sampleTracks True (newService sampleEnv [])) ! 1) \<and>
      youtubeId (fst (searchTracks sampleWorld sampleTracks True (newService sampleEnv [])) ! 1) = None"
    by blast
  with r have a: "\<not> matched (fst (searchTracks sampleWorld sampleTracks True (newService sampleEnv [])) ! 1)"
    "youtubeId (fst (searchTracks sampleWorld sampleTracks True (newService sampleEnv [])) ! 1) = None"
    by simp_all
  from T e have "case searchTrack_attempt quotaWorld ''Track'' ''Artist'' 200000 ''artist - track''
              (newService legacyEnv []) of
         Inl s'' \<Rightarrow> QuotaExceeded = QuotaExceeded
       | Inr (r, s'') \<Rightarrow> r = None"
    by blast
  then have c: "case searchTrack_attempt quotaWorld ''Track'' ''Artist'' 200000 ''artist - track''
              (newService legacyEnv []) of
         Inl s'' \<Rightarrow> True
       | Inr (r, s'') \<Rightarrow> r = None"
    by (auto split: sum.splits)
  from len l r a m e c show ?thesis by simp
qed


subsection \<open>The batch pipeline: progress and pacing\<close>

lemma searchWithYouTube_trace:
  "\<exists>evs. trace (snd (searchWithYouTube w t a d s)) = trace s @ evs \<and> filter batchEvent evs = []"
  by (auto simp: searchWithYouTube_def Let_def split: search_response.splits videos_response.splits)

lemma saveToDatabaseCache_trace:
  "\<exists>r. trace (saveToDatabaseCache w t a d m s) = trace s @ [DbInsert r]"
  by (simp add: saveToDatabaseCache_def Let_def)

lemma searchTrack_attempt_trace:
  "(case searchTrack_attempt w t a d ck s of
      Inl s' \<Rightarrow> \<exists>evs. trace s' = trace s @ evs \<and> filter batchEvent evs = []
    | Inr (r, s') \<Rightarrow> \<exists>evs. trace s' = trace s @ evs \<and> filter batchEvent evs = [])"
proof -
  obtain x s1 where y: "searchWithYouTube w t a d s = (x, s1)"
    by (cases "searchWithYouTube w t a d s")
  with searchWithYouTube_trace [of w t a d s]
  obtain evs where e: "trace s1 = trace s @ evs" "filter batchEvent evs = []" by auto
  show ?thesis
  proof (cases x)
    case (Inl err)
    with y e show ?thesis
      by (auto simp: searchTrack_attempt_def rotateApiKey_def)
  next
    case (Inr res)
    show ?thesis
    proof (cases res)
      case None
      with Inr y e show ?thesis by (simp add: searchTrack_attempt_def)
    next
      case (Some m)
      obtain r where "trace (saveToDatabaseCache w t a d m (s1\<lparr>cache := (cache s1)(ck \<mapsto> m)\<rparr>))
          = trace s1 @ [DbInsert r]"
        using saveToDatabaseCache_trace [of w t a d m "s1\<lparr>cache := (cache s1)(ck \<mapsto> m)\<rparr>"] by auto
      with Some Inr y e show ?thesis by (simp add: searchTrack_attempt_def Let_def)
    qed
  qed
qed

lemma searchTrack_loop_trace:
  "\<exists>evs. trace (snd (searchTrack_loop w t a d ck att mx s)) = trace s @ evs \<and>
         filter batchEvent evs = []"
proof (induction w t a d ck att mx s rule: searchTrack_loop.induct)
  case (1 w t a d ck att mx s)
  show ?case
  proof (cases "att < mx")
    case False
    then show ?thesis by (simp add: searchTrack_loop.simps)
  next
    case True
    show ?thesis
    proof (cases "searchTrack_attempt w t a d ck s")
      case (Inl s1)
      have "case searchTrack_attempt w t a d ck s of
              Inl s' \<Rightarrow> \<exists>evs. trace s' = trace s @ evs \<and> filter batchEvent evs = []
            | Inr (r, s') \<Rightarrow> \<exists>evs. trace s' = trace s @ evs \<and> filter batchEvent evs = []"
        by (rule searchTrack_attempt_trace)
      with Inl
      obtain e1 where e1: "trace s1 = trace s @ e1" "filter batchEvent e1 = []" by auto
      from "1.IH" [OF True Inl]
      obtain e2 where e2: "trace (snd (searchTrack_loop w t a d ck (att + 1) mx s1)) = trace s1 @ e2"
        "filter batchEvent e2 = []" by auto
      have "trace (snd (searchTrack_loop w t a d ck att mx s)) = trace s @ (e1 @ e2)"
        using True Inl e1 e2 by (simp add: searchTrack_loop.simps [of w t a d ck att])
      moreover have "filter batchEvent (e1 @ e2) = []" using e1 e2 by simp
      ultimately show ?thesis by blast
    next
      case (Inr r)
      have "case searchTrack_attempt w t a d ck s of
              Inl s' \<Rightarrow> \<exists>evs. trace s' = trace s @ evs \<and> filter batchEvent evs = []
            | Inr (r, s') \<Rightarrow> \<exists>evs. trace s' = trace s @ evs \<and> filter batchEvent evs = []"
        by (rule searchTrack_attempt_trace)
      with Inr
      obtain e1 where "trace (snd r) = trace s @ e1" "filter batchEvent e1 = []"
        by (cases r) auto
      then show ?thesis
        using True Inr by (simp add: searchTrack_loop.simps [of w t a d ck att])
    qed
  qed
qed

lemma searchTrack_trace:
  "\<exists>evs. trace (snd (searchTrack w t a d s)) = trace s @ SearchTrackCall t a d # evs \<and>
         filter batchEvent evs = []"
proof -
  let ?s0 = "emit (SearchTrackCall t a d) s"
  let ?s1 = "emit (DbSelect a t) ?s0"
  have db: "snd (checkDatabaseCache w t a ?s0) = ?s1"
    by (simp add: checkDatabaseCache_def Let_def split: option.splits)
  obtain e2 where e2: "trace (snd (searchTrack_loop w t a d (cacheKey a t) 0 (length (apiKeys ?s1)) ?s1))
      = trace ?s1 @ e2" "filter batchEvent e2 = []"
    using searchTrack_loop_trace by blast
  show ?thesis
  proof (cases "cache s (cacheKey a t)")
    case (Some c)
    then have "trace (snd (searchTrack w t a d s)) = trace s @ SearchTrackCall t a d # []"
      by (simp add: searchTrack_def Let_def)
    then show ?thesis by (intro exI [of _ "[]"]) simp
  next
    case None
    show ?thesis
    proof (cases "fst (checkDatabaseCache w t a ?s0)")
      case (Some c)
      with None db have "trace (snd (searchTrack w t a d s))
          = trace s @ SearchTrackCall t a d # [DbSelect a t]"
        by (simp add: searchTrack_def Let_def case_prod_beta)
      then show ?thesis by (intro exI [of _ "[DbSelect a t]"]) simp
    next
      case n: None
      show ?thesis
      proof (cases "\<exists>k. getCurrentApiKey ?s1 = Some k \<and> k \<noteq> []")
        case True
        with None n db e2(1) have "trace (snd (searchTrack w t a d s))
            = trace s @ SearchTrackCall t a d # (DbSelect a t # e2)"
          by (auto simp: searchTrack_def Let_def case_prod_beta)
        then show ?thesis using e2(2) by (intro exI [of _ "DbSelect a t # e2"]) simp
      next
        case False
        with None n db have "trace (snd (searchTrack w t a d s))
            = trace s @ SearchTrackCall t a d # [DbSelect a t]"
          by (auto simp: searchTrack_def Let_def case_prod_beta split: option.splits)
        then show ?thesis by (intro exI [of _ "[DbSelect a t]"]) simp
      qed
    qed
  qed
qed

lemma searchTracks_body_trace:
  "\<exists>evs. trace (snd (searchTracks_body w tracks True i s)) = trace s @ evs \<and>
         filter batchEvent evs = batchTurn tracks i"
proof -
  let ?t = "tracks ! i"
  let ?s1 = "emit (OnProgress (i + 1) (length tracks)) s"
  obtain evs where e: "trace (snd (searchTrack w (name ?t) (artist ?t) (duration_ms ?t) ?s1))
      = trace ?s1 @ SearchTrackCall (name ?t) (artist ?t) (duration_ms ?t) # evs"
    "filter batchEvent evs = []"
    using searchTrack_trace by blast
  let ?new = "OnProgress (i + 1) (length tracks)
              # SearchTrackCall (name ?t) (artist ?t) (duration_ms ?t) # evs
              @ (if i + 1 < length tracks then [Sleep 100] else [])"
  have "trace (snd (searchTracks_body w tracks True i s)) = trace s @ ?new"
    using e(1) by (simp add: searchTracks_body_def Let_def case_prod_beta)
  moreover have "filter batchEvent ?new = batchTurn tracks i"
    using e(2) by (simp add: batchTurn_def)
  ultimately show ?thesis by blast
qed

lemma stateAt_trace:
  "\<exists>evs. trace (stateAt w tracks True s n) = trace s @ evs \<and>
         filter batchEvent evs = concat (map (batchTurn tracks) [0..<n])"
proof (induction n)
  case 0
  show ?case by simp
next
  case (Suc n)
  then obtain e1 where e1: "trace (stateAt w tracks True s n) = trace s @ e1"
    "filter batchEvent e1 = concat (map (batchTurn tracks) [0..<n])" by blast
  obtain e2 where e2: "trace (snd (searchTracks_body w tracks True n (stateAt w tracks True s n)))
      = trace (stateAt w tracks True s n) @ e2" "filter batchEvent e2 = batchTurn tracks n"
    using searchTracks_body_trace by blast
  have "trace (stateAt w tracks True s (Suc n)) = trace s @ (e1 @ e2)"
    using e1 e2 by (simp add: stateAt.simps(2))
  moreover have "filter batchEvent (e1 @ e2) = concat (map (batchTurn tracks) [0..<Suc n])"
    using e1 e2 by simp
  ultimately show ?case by blast
qed

text \<open>
  C9. With a progress callback, the events of the batch loop are, for each position in
  order: the callback with the 1-indexed position and the total, then the call of
  \<open>searchTrack\<close> for the track, then, except after the last track, a sleep of 100 ms.
  This holds from every state, whether or not a query is answered from a cache.
\<close>

theorem searchTracks_progress_and_pacing:
  "filter batchEvent (newEvents s (snd (searchTracks w tracks True s)))
     = concat (map (batchTurn tracks) [0..<length tracks])"
proof -
  obtain evs where "trace (stateAt w tracks True s (length tracks)) = trace s @ evs"
    "filter batchEvent evs = concat (map (batchTurn tracks) [0..<length tracks])"
    using stateAt_trace by blast
  then show ?thesis
    by (simp add: searchTracks_result newEvents_def)
qed

theorem searchTracks_progress_and_pacing_witness:
  "filter batchEvent
     (newEvents warmService (snd (searchTracks sampleWorld (take 2 sampleTracks) True warmService)))
   = [OnProgress 1 2, SearchTrackCall ''Track'' ''Artist'' 200000, Sleep 100,
      OnProgress 2 2, SearchTrackCall ''Nope'' ''X'' 200000]
   \<and> newEvents warmService (snd (searchTracks sampleWorld (take 2 sampleTracks) True warmService))
   = [OnProgress 1 2, SearchTrackCall ''Track'' ''Artist'' 200000, Sleep 100,
      OnProgress 2 2, SearchTrackCall ''Nope'' ''X'' 200000, DbSelect ''X'' ''Nope'',
      FetchSearch ''k1'' ''X - Nope official audio'']"
proof -
  have t: "take 2 sampleTracks =
     [\<lparr> name = ''Track'', artist = ''Artist'', duration_ms = 200000 \<rparr>,
      \<lparr> name = ''Nope'', artist = ''X'', duration_ms = 200000 \<rparr>]"
    by (simp add: sampleTracks_def)
  have u: "[0..<2] = [0, Suc 0]"
    by (simp add: upt_conv_Cons)
  have e: "newEvents warmService
             (snd (searchTracks sampleWorld (take 2 sampleTracks) True warmService))
   = [OnProgress 1 2, SearchTrackCall ''Track'' ''Artist'' 200000, Sleep 100,
      OnProgress 2 2, SearchTrackCall ''Nope'' ''X'' 200000, DbSelect ''X'' ''Nope'',
      FetchSearch ''k1'' ''X - Nope official audio'']"
    by code_simp
  show ?thesis
    using searchTracks_progress_and_pacing [of warmService sampleWorld "take 2 sampleTracks"] e
    by (simp add: t u batchTurn_def)
qed

end
